theory Spec2Isabelle
  imports Complex_Main "HOL-Library.Sublist" "HOL-Library.Multiset" "HOL-Library.Word"
begin

section \<open>Data model\<close>

text \<open>
  The C++ sources solve the 0/1 knapsack problem for a truck and a list of pallets
  (\<^verbatim>\<open>Pallet.h\<close>, \<^verbatim>\<open>algorithms.cpp\<close>).  A pallet is a struct of three \<^verbatim>\<open>int\<close> fields.
  The field \<^verbatim>\<open>id\<close> is named \<open>id_p\<close> here, since \<open>id\<close> is the identity function of HOL.

  The C++ type \<^verbatim>\<open>int\<close> is the type \<open>cint\<close> of 32-bit words: \<open>+\<close> and \<open>-\<close> wrap around,
  \<open>sint\<close> reads a word as the signed number it stands for, and \<open>\<le>s\<close> and \<open><s\<close> are the
  signed comparisons.  A \<^verbatim>\<open>std::vector\<close> is a list; positions and loop counters that run
  over a vector are natural numbers.
\<close>

type_synonym cint = "32 word"

record Pallet =
  id_p :: cint
  weight :: cint
  profit :: cint

definition INT_MAX :: cint where
  "INT_MAX = 2147483647"

section \<open>Case 1: exhaustive search\<close>

text \<open>
  \<^verbatim>\<open>knapsackRecursive\<close> updates \<^verbatim>\<open>bestProfit\<close> and \<^verbatim>\<open>bestSubset\<close> through references;
  the model threads them as the pair \<open>best\<close> and returns the updated pair.  The value the
  C++ function returns is the first component.  \<^verbatim>\<open>currentSubset\<close> is pushed to before the
  including call and popped after it, so the call sees the extended list and the caller
  continues with the old one.

  The source tests \<^verbatim>\<open>index == pallets.size()\<close>.  An index beyond the size would read
  \<^verbatim>\<open>pallets[index]\<close> out of range; that never happens when the recursion starts at 0, and
  the model returns \<open>best\<close> unchanged there.
\<close>

function knapsackRecursive ::
  "Pallet list \<Rightarrow> nat \<Rightarrow> cint \<Rightarrow> cint \<Rightarrow> cint list \<Rightarrow> cint \<times> cint list \<Rightarrow> cint \<times> cint list"
where
  "knapsackRecursive pallets index remainingCapacity currentProfit currentSubset best =
     (if index = length pallets then
        (if fst best <s currentProfit \<or>
            (currentProfit = fst best \<and> length currentSubset < length (snd best))
         then (currentProfit, currentSubset)
         else best)
      else if index > length pallets then best
      else
        let best1 = knapsackRecursive pallets (index + 1) remainingCapacity
                      currentProfit currentSubset best
        in if weight (pallets ! index) \<le>s remainingCapacity then
             knapsackRecursive pallets (index + 1)
               (remainingCapacity - weight (pallets ! index))
               (currentProfit + profit (pallets ! index))
               (currentSubset @ [id_p (pallets ! index)]) best1
           else best1)"
  by pat_completeness auto
termination
  by (relation "measure (\<lambda>(pallets, index, _). length pallets - index)") auto

declare knapsackRecursive.simps [simp del]

text \<open>
  \<^verbatim>\<open>KBruteForce\<close> returns the profit and prints the pallets of \<^verbatim>\<open>bestSubset\<close>; the model
  returns the pair of the returned profit and the reported list of ids.
\<close>

definition KBruteForce :: "cint \<Rightarrow> Pallet list \<Rightarrow> cint \<times> cint list" where
  "KBruteForce capacity pallets = knapsackRecursive pallets 0 capacity 0 [] (0, [])"

section \<open>Case 2: dynamic programming\<close>

text \<open>
  The two tables \<^verbatim>\<open>dp\<close> and \<^verbatim>\<open>count\<close> are vectors of \<^verbatim>\<open>n + 1\<close> rows of
  \<^verbatim>\<open>capacity + 1\<close> cells.  \<open>set2\<close> is the assignment \<^verbatim>\<open>t[i][w] = v\<close>.
\<close>

type_synonym table = "cint list list"

definition set2 :: "table \<Rightarrow> nat \<Rightarrow> nat \<Rightarrow> cint \<Rightarrow> table" where
  "set2 t i w v = t[i := (t ! i)[w := v]]"

text \<open>
  The body of the inner loop, for the cell \<open>(i, w)\<close>.  The loop counter \<open>w\<close> stays within
  \<open>0..capacity\<close>, so it is a natural number here.  The column \<^verbatim>\<open>w - peso\<close> lies in
  \<open>0..w\<close> exactly when \<open>0 \<le> peso \<le> w\<close>.  With a negative weight the source reads beyond
  the row (undefined behaviour), and the model reads an unspecified value; no statement
  below is made about such inputs.
\<close>

definition dp_cell :: "Pallet list \<Rightarrow> nat \<Rightarrow> nat \<Rightarrow> table \<times> table \<Rightarrow> table \<times> table" where
  "dp_cell pallets i w tabs =
     (let dp = fst tabs; count = snd tabs;
          peso = weight (pallets ! (i - 1));
          lucro = profit (pallets ! (i - 1))
      in if sint peso \<le> int w then
           let inclui = lucro + dp ! (i - 1) ! nat (int w - sint peso);
               exclui = dp ! (i - 1) ! w
           in if exclui <s inclui then
                (set2 dp i w inclui,
                 set2 count i w (count ! (i - 1) ! nat (int w - sint peso) + 1))
              else if inclui <s exclui then
                (set2 dp i w exclui, set2 count i w (count ! (i - 1) ! w))
              else
                let incluiCount = count ! (i - 1) ! nat (int w - sint peso) + 1;
                    excluiCount = count ! (i - 1) ! w
                in (set2 dp i w inclui,
                    set2 count i w (if excluiCount <s incluiCount then excluiCount else incluiCount))
         else
           (set2 dp i w (dp ! (i - 1) ! w), set2 count i w (count ! (i - 1) ! w)))"

text \<open>The inner loop \<^verbatim>\<open>for (w = 0; w <= capacity; ++w)\<close>, entered at \<open>w\<close>.\<close>

function fill_row ::
  "Pallet list \<Rightarrow> nat \<Rightarrow> nat \<Rightarrow> nat \<Rightarrow> table \<times> table \<Rightarrow> table \<times> table"
where
  "fill_row pallets capacity i w tabs =
     (if w \<le> capacity
      then fill_row pallets capacity i (w + 1) (dp_cell pallets i w tabs)
      else tabs)"
  by pat_completeness auto
termination
  by (relation "measure (\<lambda>(pallets, capacity, i, w, tabs). capacity + 1 - w)") auto

declare fill_row.simps [simp del]

text \<open>The outer loop \<^verbatim>\<open>for (i = 1; i <= n; ++i)\<close>, entered at \<open>i\<close>.\<close>

function fill_table ::
  "Pallet list \<Rightarrow> nat \<Rightarrow> nat \<Rightarrow> nat \<Rightarrow> table \<times> table \<Rightarrow> table \<times> table"
where
  "fill_table pallets capacity n i tabs =
     (if i \<le> n
      then fill_table pallets capacity n (i + 1) (fill_row pallets capacity i 0 tabs)
      else tabs)"
  by pat_completeness auto
termination
  by (relation "measure (\<lambda>(pallets, capacity, n, i, tabs). n + 1 - i)") auto

declare fill_table.simps [simp del]

text \<open>
  The reconstruction loop \<^verbatim>\<open>for (i = n; i > 0 && w > 0; --i)\<close>.  The first equation is
  the exit at \<open>i = 0\<close>; in the second the loop variable is \<open>Suc i\<close>, so that
  \<^verbatim>\<open>pallets[i - 1]\<close> is \<open>pallets ! i\<close> and \<^verbatim>\<open>dp[i - 1]\<close> is \<open>dp ! i\<close>.  The column \<open>w\<close> is a
  C++ \<^verbatim>\<open>int\<close>, positive whenever it is used as an index.
\<close>

fun reconstruct :: "Pallet list \<Rightarrow> table \<Rightarrow> nat \<Rightarrow> cint \<Rightarrow> cint list \<Rightarrow> cint list" where
  "reconstruct pallets dp 0 w selectedIDs = selectedIDs"
| "reconstruct pallets dp (Suc i) w selectedIDs =
     (if 0 <s w then
        (if dp ! Suc i ! nat (sint w) \<noteq> dp ! i ! nat (sint w)
         then reconstruct pallets dp i (w - weight (pallets ! i))
                (selectedIDs @ [id_p (pallets ! i)])
         else reconstruct pallets dp i w selectedIDs)
      else selectedIDs)"

text \<open>
  \<^verbatim>\<open>KDynamic\<close> returns \<^verbatim>\<open>dp[n][capacity]\<close> and prints the pallets of the reversed
  \<^verbatim>\<open>selectedIDs\<close>.  The rows are built by \<^verbatim>\<open>std::vector<int>(capacity + 1, 0)\<close>.  With a
  negative capacity the source cannot build its tables (the constructor throws for a
  negative size, and with capacity \<open>-1\<close> the final read \<^verbatim>\<open>dp[n][capacity]\<close> is out of
  range); with capacity \<^verbatim>\<open>INT_MAX\<close> the sum \<^verbatim>\<open>capacity + 1\<close> overflows to a negative size.
  In these cases the model returns \<open>None\<close>.
\<close>

definition KDynamic :: "cint \<Rightarrow> Pallet list \<Rightarrow> (cint \<times> cint list) option" where
  "KDynamic capacity pallets =
     (if capacity <s 0 \<or> capacity + 1 <s 0 then None
      else
        let n = length pallets;
            c = nat (sint capacity);
            dp0 = replicate (n + 1) (replicate (c + 1) 0);
            count0 = replicate (n + 1) (replicate (c + 1) 0);
            dp = fst (fill_table pallets c n 1 (dp0, count0));
            selectedIDs = rev (reconstruct pallets dp n capacity [])
        in Some (dp ! n ! c, selectedIDs))"

subsection \<open>The algorithm without the count table\<close>

text \<open>
  The variant used to state that the count table has no effect: the same loops over the
  profit table alone, each cell filled by the classic recurrence
  \<open>dp[i][w] = max(dp[i-1][w], profit + dp[i-1][w - weight])\<close> when the pallet fits and
  \<open>dp[i-1][w]\<close> otherwise, followed by the same reconstruction.  \<open>smax\<close> is the maximum
  of two \<^verbatim>\<open>int\<close> values.
\<close>

definition smax :: "cint \<Rightarrow> cint \<Rightarrow> cint" where
  "smax a b = (if a <s b then b else a)"

definition dp_cell_nocount :: "Pallet list \<Rightarrow> nat \<Rightarrow> nat \<Rightarrow> table \<Rightarrow> table" where
  "dp_cell_nocount pallets i w dp =
     (let peso = weight (pallets ! (i - 1));
          lucro = profit (pallets ! (i - 1))
      in if sint peso \<le> int w
         then set2 dp i w
                (smax (dp ! (i - 1) ! w) (lucro + dp ! (i - 1) ! nat (int w - sint peso)))
         else set2 dp i w (dp ! (i - 1) ! w))"

function fill_row_nocount :: "Pallet list \<Rightarrow> nat \<Rightarrow> nat \<Rightarrow> nat \<Rightarrow> table \<Rightarrow> table" where
  "fill_row_nocount pallets capacity i w dp =
     (if w \<le> capacity
      then fill_row_nocount pallets capacity i (w + 1) (dp_cell_nocount pallets i w dp)
      else dp)"
  by pat_completeness auto
termination
  by (relation "measure (\<lambda>(pallets, capacity, i, w, dp). capacity + 1 - w)") auto

declare fill_row_nocount.simps [simp del]

function fill_table_nocount :: "Pallet list \<Rightarrow> nat \<Rightarrow> nat \<Rightarrow> nat \<Rightarrow> table \<Rightarrow> table" where
  "fill_table_nocount pallets capacity n i dp =
     (if i \<le> n
      then fill_table_nocount pallets capacity n (i + 1) (fill_row_nocount pallets capacity i 0 dp)
      else dp)"
  by pat_completeness auto
termination
  by (relation "measure (\<lambda>(pallets, capacity, n, i, dp). n + 1 - i)") auto

declare fill_table_nocount.simps [simp del]

definition KDynamic_nocount :: "cint \<Rightarrow> Pallet list \<Rightarrow> (cint \<times> cint list) option" where
  "KDynamic_nocount capacity pallets =
     (if capacity <s 0 \<or> capacity + 1 <s 0 then None
      else
        let n = length pallets;
            c = nat (sint capacity);
            dp0 = replicate (n + 1) (replicate (c + 1) 0);
            dp = fill_table_nocount pallets c n 1 dp0;
            selectedIDs = rev (reconstruct pallets dp n capacity [])
        in Some (dp ! n ! c, selectedIDs))"

section \<open>Case 3: greedy approximation\<close>

text \<open>
  The comparator of the sort computes the two quotients profit/weight in \<^verbatim>\<open>double\<close> and
  tests \<^verbatim>\<open>r1 > r2\<close>.  A \<^verbatim>\<open>double\<close> value is modelled by the number it stands for, or as
  an infinity or NaN.  Both operands of the division are 32-bit integers, which
  \<^verbatim>\<open>double\<close> holds exactly, and the quotient is the exact quotient rounded to 53
  significant bits, ties to the even neighbour: a non-zero quotient \<open>q\<close> has
  \<open>2^(k - 31) \<le> q < 2^(k - 30)\<close> for one \<open>k\<close> in \<open>0..62\<close>, and is rounded to a multiple of
  \<open>2^(k - 83)\<close>.  A division by zero gives an infinity, and \<open>0 / 0\<close> gives NaN, which
  compares false with everything.
\<close>

datatype dbl = NaN | NegInf | Finite rat | PosInf

definition round_even :: "rat \<Rightarrow> int" where
  "round_even x =
     (let f = \<lfloor>x\<rfloor>; d = x - of_int f
      in if d < 1 / 2 then f
         else if 1 / 2 < d then f + 1
         else if even f then f else f + 1)"

fun binade :: "rat \<Rightarrow> nat \<Rightarrow> nat" where
  "binade x 0 = 0"
| "binade x (Suc k) = (if 2 ^ Suc k \<le> x then Suc k else binade x k)"

definition round_double :: "rat \<Rightarrow> rat" where
  "round_double q =
     (let k = binade (q * 2 ^ 31) 62
      in of_int (round_even (q * 2 ^ 83 / 2 ^ k)) * 2 ^ k / 2 ^ 83)"

definition double_div :: "cint \<Rightarrow> cint \<Rightarrow> dbl" where
  "double_div a b =
     (if sint b = 0 then
        (if sint a = 0 then NaN else if 0 < sint a then PosInf else NegInf)
      else
        let q = (of_int (sint a) :: rat) / of_int (sint b)
        in if q = 0 then Finite 0
           else if 0 < q then Finite (round_double q)
           else Finite (- round_double (- q)))"

fun dbl_greater :: "dbl \<Rightarrow> dbl \<Rightarrow> bool" where
  "dbl_greater NaN y = False"
| "dbl_greater x NaN = False"
| "dbl_greater PosInf y = (y \<noteq> PosInf)"
| "dbl_greater NegInf y = False"
| "dbl_greater (Finite a) PosInf = False"
| "dbl_greater (Finite a) NegInf = True"
| "dbl_greater (Finite a) (Finite b) = (b < a)"

definition ratio_greater :: "Pallet \<Rightarrow> Pallet \<Rightarrow> bool" where
  "ratio_greater a b =
     (let r1 = double_div (profit a) (weight a);
          r2 = double_div (profit b) (weight b)
      in dbl_greater r1 r2)"

text \<open>
  \<^verbatim>\<open>std::sort\<close> returns a permutation of its input; the order among elements that the
  comparator does not separate is left to the library.  The model is the insertion sort
  that libstdc++ runs on up to 16 elements.  Each element \<open>x\<close> in turn is put into the
  sorted elements before it: at the front when the comparator puts it before the first
  one, and otherwise it moves from the back towards the front past the elements that the
  comparator puts after it.  \<open>shift_in\<close> works on the reversed prefix.  On longer inputs
  libstdc++ partitions first, and pallets of equal ratio may then come out in another
  order.
\<close>

fun shift_in :: "('a \<Rightarrow> 'a \<Rightarrow> bool) \<Rightarrow> 'a \<Rightarrow> 'a list \<Rightarrow> 'a list" where
  "shift_in cmp x [] = [x]"
| "shift_in cmp x (y # ys) = (if cmp x y then y # shift_in cmp x ys else x # y # ys)"

definition sort_insert :: "('a \<Rightarrow> 'a \<Rightarrow> bool) \<Rightarrow> 'a list \<Rightarrow> 'a \<Rightarrow> 'a list" where
  "sort_insert cmp ys x =
     (if ys \<noteq> [] \<and> cmp x (hd ys) then x # ys else rev (shift_in cmp x (rev ys)))"

definition std_sort :: "('a \<Rightarrow> 'a \<Rightarrow> bool) \<Rightarrow> 'a list \<Rightarrow> 'a list" where
  "std_sort cmp xs = foldl (sort_insert cmp) [] xs"

text \<open>
  The selection loop over the sorted pallets; the state is
  \<open>(totalProfit, totalWeight, selectedIDs)\<close>.
\<close>

fun KProxy_loop ::
  "cint \<Rightarrow> Pallet list \<Rightarrow> cint \<times> cint \<times> cint list \<Rightarrow> cint \<times> cint \<times> cint list"
where
  "KProxy_loop capacity [] st = st"
| "KProxy_loop capacity (p # rest) (totalProfit, totalWeight, selectedIDs) =
     (if totalWeight + weight p \<le>s capacity
      then KProxy_loop capacity rest
             (totalProfit + profit p, totalWeight + weight p, selectedIDs @ [id_p p])
      else KProxy_loop capacity rest (totalProfit, totalWeight, selectedIDs))"

text \<open>The part of \<^verbatim>\<open>KProxy\<close> after the sort: the returned profit and the selected ids.\<close>

definition KProxy_sorted :: "cint \<Rightarrow> Pallet list \<Rightarrow> cint \<times> cint list" where
  "KProxy_sorted capacity sortedPallets =
     (let st = KProxy_loop capacity sortedPallets (0, 0, []) in (fst st, snd (snd st)))"

definition KProxy :: "cint \<Rightarrow> Pallet list \<Rightarrow> cint \<times> cint list" where
  "KProxy capacity pallets = KProxy_sorted capacity (std_sort ratio_greater pallets)"

section \<open>Case 4: branch and bound\<close>

text \<open>
  \<^verbatim>\<open>branchAndBound\<close> updates \<^verbatim>\<open>bestSelection\<close>, \<^verbatim>\<open>bestProfit\<close> and \<^verbatim>\<open>bestWeight\<close> through
  references; the model threads them as the triple \<open>best\<close>.  The including call comes
  first, the excluding call second.
\<close>

function branchAndBound ::
  "Pallet list \<Rightarrow> nat \<Rightarrow> cint \<Rightarrow> cint \<Rightarrow> cint \<Rightarrow> cint list \<Rightarrow> cint list \<times> cint \<times> cint
     \<Rightarrow> cint list \<times> cint \<times> cint"
where
  "branchAndBound pallets idx capacity currWeight currProfit currSelection best =
     (let bestSelection = fst best; bestProfit = fst (snd best); bestWeight = snd (snd best)
      in if pallets = [] then best
         else if idx \<ge> length pallets then
           (if bestProfit <s currProfit \<or>
               (currProfit = bestProfit \<and>
                  (length currSelection < length bestSelection \<or>
                   (length currSelection = length bestSelection \<and> currWeight <s bestWeight)))
            then (currSelection, currProfit, currWeight)
            else best)
         else
           let current = pallets ! idx;
               best1 =
                 (if currWeight + weight current \<le>s capacity
                  then branchAndBound pallets (idx + 1) capacity
                         (currWeight + weight current) (currProfit + profit current)
                         (currSelection @ [id_p current]) best
                  else best)
           in branchAndBound pallets (idx + 1) capacity currWeight currProfit
                currSelection best1)"
  by pat_completeness auto
termination
  by (relation "measure (\<lambda>(pallets, idx, _). length pallets - idx)") auto

declare branchAndBound.simps [simp del]

text \<open>
  The lookup \<^verbatim>\<open>std::find_if(pallets.begin(), pallets.end(), p.id == id)\<close> the solvers use
  to turn an id back into a pallet: the first pallet with that id, and ids that no pallet
  has are skipped.
\<close>

definition named_pallets :: "Pallet list \<Rightarrow> cint list \<Rightarrow> Pallet list" where
  "named_pallets pallets ids =
     List.map_filter (\<lambda>i. find (\<lambda>p. id_p p = i) pallets) ids"

text \<open>The result struct of the branch-and-bound solver (\<^verbatim>\<open>algorithms.h\<close>).\<close>

record ILPResult =
  selectedPallets :: "cint list"
  totalProfit :: cint
  totalWeight :: cint

text \<open>
  \<^verbatim>\<open>solveILP\<close> starts the search with \<^verbatim>\<open>bestProfit = 0\<close>, \<^verbatim>\<open>bestWeight = INT_MAX\<close> and
  the empty \<^verbatim>\<open>result.selectedPallets\<close>, then recomputes the total weight from the ids,
  adding in \<^verbatim>\<open>int\<close>.
\<close>

definition solveILP :: "Pallet list \<Rightarrow> cint \<Rightarrow> ILPResult" where
  "solveILP pallets capacity =
     (let best = branchAndBound pallets 0 capacity 0 0 [] ([], 0, INT_MAX)
      in \<lparr> selectedPallets = fst best,
           totalProfit = fst (snd best),
           totalWeight = foldl (\<lambda>acc p. acc + weight p) 0 (named_pallets pallets (fst best)) \<rparr>)"

section \<open>Subsets of the pallet list and their sums\<close>

text \<open>
  \<open>wt\<close> and \<open>pf\<close> are the weight and the profit of a pallet as numbers.  A subset of the
  pallets is a subsequence \<open>sel\<close> of the pallet list (\<open>subseq sel pallets\<close>): each position
  is taken at most once and the order of the list is kept, which is also the order in which
  the recursive solvers push ids.  \<open>total_weight\<close> and \<open>total_profit\<close> are the true sums,
  which need not fit into an \<^verbatim>\<open>int\<close>.
\<close>

definition wt :: "Pallet \<Rightarrow> int" where
  "wt p = sint (weight p)"

definition pf :: "Pallet \<Rightarrow> int" where
  "pf p = sint (profit p)"

definition total_weight :: "Pallet list \<Rightarrow> int" where
  "total_weight sel = sum_list (map wt sel)"

definition total_profit :: "Pallet list \<Rightarrow> int" where
  "total_profit sel = sum_list (map pf sel)"

section \<open>Notions used in the proofs\<close>

text \<open>
  \<open>profit_sum\<close> and \<open>weight_sum\<close> add up in \<^verbatim>\<open>int\<close>, as the solvers do.

  The two recursive searches keep the better of the best candidate so far and the candidate
  at a leaf.  \<open>bf_geq a b\<close> says that the exhaustive search does not replace \<open>a\<close> by
  \<open>b\<close>: the profit of \<open>b\<close> is smaller, or equal with at least as many ids.  \<open>bf_leaf\<close> is
  the candidate at the leaf reached by adding the pallets \<open>sel\<close> to the current state.
\<close>

definition profit_sum :: "Pallet list \<Rightarrow> cint" where
  "profit_sum sel = sum_list (map profit sel)"

definition weight_sum :: "Pallet list \<Rightarrow> cint" where
  "weight_sum sel = sum_list (map weight sel)"

definition bf_geq :: "cint \<times> cint list \<Rightarrow> cint \<times> cint list \<Rightarrow> bool" where
  "bf_geq a b = (fst b <s fst a \<or> (fst b = fst a \<and> length (snd a) \<le> length (snd b)))"

definition bf_leaf :: "cint \<Rightarrow> cint list \<Rightarrow> Pallet list \<Rightarrow> cint \<times> cint list" where
  "bf_leaf cp cs sel = (cp + profit_sum sel, cs @ map id_p sel)"

text \<open>The same for branch and bound, whose order has the weight as third key.\<close>

definition bb_geq :: "cint list \<times> cint \<times> cint \<Rightarrow> cint list \<times> cint \<times> cint \<Rightarrow> bool" where
  "bb_geq a b =
     (fst (snd b) <s fst (snd a) \<or>
      (fst (snd b) = fst (snd a) \<and>
         (length (fst a) < length (fst b) \<or>
          (length (fst a) = length (fst b) \<and> snd (snd a) \<le>s snd (snd b)))))"

definition bb_leaf :: "cint \<Rightarrow> cint \<Rightarrow> cint list \<Rightarrow> Pallet list \<Rightarrow> cint list \<times> cint \<times> cint" where
  "bb_leaf cw cp cs sel = (cs @ map id_p sel, cp + profit_sum sel, cw + weight_sum sel)"

text \<open>
  The value the profit table is meant to hold at \<open>(i, w)\<close>: the recurrence over the first
  \<open>i\<close> pallets and capacity \<open>w\<close>, as a function on numbers.
\<close>

fun best_profit :: "Pallet list \<Rightarrow> nat \<Rightarrow> nat \<Rightarrow> int" where
  "best_profit ps 0 w = 0"
| "best_profit ps (Suc i) w =
     (if wt (ps ! i) \<le> int w
      then max (best_profit ps i w)
               (pf (ps ! i) + best_profit ps i (nat (int w - wt (ps ! i))))
      else best_profit ps i w)"

text \<open>
  A table of \<open>n + 1\<close> rows of \<open>c + 1\<close> cells, and a row that holds the recurrence.
  \<open>sums_fit ps n c\<close> says that no sum the recurrence forms for the first \<open>n\<close> pallets and
  the capacities up to \<open>c\<close> leaves the range of \<^verbatim>\<open>int\<close>.
\<close>

definition shape :: "nat \<Rightarrow> nat \<Rightarrow> table \<Rightarrow> bool" where
  "shape n c t = (length t = n + 1 \<and> (\<forall>i\<le>n. length (t ! i) = c + 1))"

definition row_ok :: "Pallet list \<Rightarrow> nat \<Rightarrow> table \<Rightarrow> nat \<Rightarrow> bool" where
  "row_ok ps c dp i = (\<forall>w\<le>c. sint (dp ! i ! w) = best_profit ps i w)"

definition sums_fit :: "Pallet list \<Rightarrow> nat \<Rightarrow> nat \<Rightarrow> bool" where
  "sums_fit ps n c =
     (\<forall>i<n. \<forall>w\<le>c. wt (ps ! i) \<le> int w \<longrightarrow>
        - 2147483648 \<le> pf (ps ! i) + best_profit ps i (nat (int w - wt (ps ! i))) \<and>
        pf (ps ! i) + best_profit ps i (nat (int w - wt (ps ! i))) \<le> 2147483647)"

text \<open>
  Concrete instances.  \<open>example_pallets\<close> is the scenario of the specification, used with
  capacity 10.  \<open>tied_pallets\<close>, used with capacity 3, has three subsets of the best profit
  5: pallet 1 alone (weight 3), pallet 2 alone (weight 2), and pallets 2 and 3 together.
  \<open>weightless_pallets\<close> has a pallet of weight 0.  In \<open>heavy_pallets\<close> the two weights add
  up to more than \<^verbatim>\<open>INT_MAX\<close>, and in \<open>rich_pair\<close> and \<open>rich_pallets\<close> the profits do.
\<close>

definition example_pallets :: "Pallet list" where
  "example_pallets =
     [\<lparr>id_p = 1, weight = 5, profit = 10\<rparr>,
      \<lparr>id_p = 2, weight = 4, profit = 40\<rparr>,
      \<lparr>id_p = 3, weight = 6, profit = 30\<rparr>]"


definition weightless_pallets :: "Pallet list" where
  "weightless_pallets =
     [\<lparr>id_p = 1, weight = 0, profit = 5\<rparr>,
      \<lparr>id_p = 2, weight = 3, profit = 1\<rparr>]"




section \<open>Machine integers\<close>

lemma sint_add_in_range:
  "- 2147483648 \<le> sint a + sint b \<Longrightarrow> sint a + sint b \<le> 2147483647 \<Longrightarrow>
   sint (a + b :: cint) = sint a + sint b"
  by (simp add: sint_word_ariths signed_take_bit_int_eq_self)

lemma sint_sub_in_range:
  "- 2147483648 \<le> sint a - sint b \<Longrightarrow> sint a - sint b \<le> 2147483647 \<Longrightarrow>
   sint (a - b :: cint) = sint a - sint b"
  by (simp add: sint_word_ariths signed_take_bit_int_eq_self)

lemma sint_lower: "- 2147483648 \<le> sint (a :: cint)"
  using sint_ge[of a] by simp

lemma sint_upper: "sint (a :: cint) \<le> 2147483647"
  using sint_lt[of a] by simp

lemma sint_inject: "sint (a :: cint) = sint b \<longleftrightarrow> a = b"
  by (metis signed_word_eqI)

lemma sint_INT_MAX: "sint INT_MAX = 2147483647"
  by (simp add: INT_MAX_def)

section \<open>Sums over a selection\<close>

lemma total_weight_simps [simp]:
  "total_weight [] = 0"
  "total_weight (p # sel) = wt p + total_weight sel"
  "total_weight (sel @ sel') = total_weight sel + total_weight sel'"
  by (simp_all add: total_weight_def)

lemma total_profit_simps [simp]:
  "total_profit [] = 0"
  "total_profit (p # sel) = pf p + total_profit sel"
  "total_profit (sel @ sel') = total_profit sel + total_profit sel'"
  by (simp_all add: total_profit_def)

lemma profit_sum_simps [simp]:
  "profit_sum [] = 0"
  "profit_sum (p # sel) = profit p + profit_sum sel"
  "profit_sum (sel @ sel') = profit_sum sel + profit_sum sel'"
  by (simp_all add: profit_sum_def)

lemma weight_sum_simps [simp]:
  "weight_sum [] = 0"
  "weight_sum (p # sel) = weight p + weight_sum sel"
  "weight_sum (sel @ sel') = weight_sum sel + weight_sum sel'"
  by (simp_all add: weight_sum_def)

lemma total_weight_nonneg:
  "\<forall>p\<in>set sel. 0 \<le> wt p \<Longrightarrow> 0 \<le> total_weight sel"
  by (induction sel) auto


lemma subseq_set_subset: "subseq sel ps \<Longrightarrow> set sel \<subseteq> set ps"
  by (induction rule: list_emb.induct) auto

lemma positive_weights_nothing_fits:
  "\<forall>p\<in>set sel. 0 < wt p \<Longrightarrow> total_weight sel \<le> 0 \<Longrightarrow> sel = []"
proof (cases sel)
  case Nil
  then show ?thesis by simp
next
  case (Cons p rest)
  assume pos: "\<forall>p\<in>set sel. 0 < wt p" and le: "total_weight sel \<le> 0"
  have "0 \<le> total_weight rest"
    using pos Cons by (intro total_weight_nonneg) force
  moreover have "0 < wt p" using pos Cons by simp
  ultimately show ?thesis using le Cons by simp
qed





section \<open>What the exhaustive search computes\<close>

lemma bf_geq_refl: "bf_geq a a"
  by (simp add: bf_geq_def)



lemma drop_step: "index < length ps \<Longrightarrow> drop index ps = ps ! index # drop (Suc index) ps"
  by (simp add: Cons_nth_drop_Suc)

lemma knapsackRecursive_leaf:
  "knapsackRecursive ps (length ps) rc cp cs best =
     (if fst best <s cp \<or> (cp = fst best \<and> length cs < length (snd best))
      then (cp, cs) else best)"
  by (subst knapsackRecursive.simps) simp

lemma knapsackRecursive_step:
  "index < length ps \<Longrightarrow>
   knapsackRecursive ps index rc cp cs best =
     (if weight (ps ! index) \<le>s rc
      then knapsackRecursive ps (index + 1) (rc - weight (ps ! index))
             (cp + profit (ps ! index)) (cs @ [id_p (ps ! index)])
             (knapsackRecursive ps (index + 1) rc cp cs best)
      else knapsackRecursive ps (index + 1) rc cp cs best)"
  by (subst knapsackRecursive.simps) (simp add: Let_def)


lemma sint_remaining:
  assumes "0 \<le> wt x" "weight x \<le>s rc"
  shows "sint (rc - weight x) = sint rc - wt x"
proof -
  have "wt x \<le> sint rc" using assms(2) by (simp add: word_sle_eq wt_def)
  then show ?thesis
    using assms(1) sint_upper[of rc] sint_lower[of rc]
    by (intro sint_sub_in_range[of rc "weight x", folded wt_def]) (simp_all add: wt_def)
qed


lemma knapsackRecursive_attained:
  assumes "\<forall>p\<in>set ps. 0 \<le> wt p" "0 \<le> sint rc" "index \<le> length ps"
  shows "knapsackRecursive ps index rc cp cs best = best \<or>
         (\<exists>sel. subseq sel (drop index ps) \<and> total_weight sel \<le> sint rc \<and>
                knapsackRecursive ps index rc cp cs best = bf_leaf cp cs sel)"
  using assms
proof (induction ps index rc cp cs best rule: knapsackRecursive.induct)
  case (1 ps index rc cp cs best)
  have nn: "\<forall>p\<in>set ps. 0 \<le> wt p" by (rule "1.prems"(1))
  show ?case
  proof (cases "index = length ps")
    case True
    have "bf_leaf cp cs [] = (cp, cs)" by (simp add: bf_leaf_def)
    then show ?thesis using True "1.prems"(2)
      by (auto simp: knapsackRecursive_leaf intro!: exI[of _ "[]"])
  next
    case False
    with "1.prems" have lt: "index < length ps" by simp
    then have ne: "index \<noteq> length ps" "\<not> length ps < index" by auto
    let ?x = "ps ! index"
    let ?b1 = "knapsackRecursive ps (index + 1) rc cp cs best"
    let ?b2 = "knapsackRecursive ps (index + 1) (rc - weight ?x)
               (cp + profit ?x) (cs @ [id_p ?x]) ?b1"
    have dr: "drop index ps = ?x # drop (index + 1) ps" using drop_step[OF lt] by simp
    have xnn: "0 \<le> wt ?x" using nn lt nth_mem by blast
    have h1: "?b1 = best \<or> (\<exists>sel. subseq sel (drop index ps) \<and> total_weight sel \<le> sint rc \<and> ?b1 = bf_leaf cp cs sel)"
      using "1.IH"(1)[OF ne nn "1.prems"(2)] lt dr by auto
    show ?thesis
    proof (cases "weight ?x \<le>s rc")
      case True
      have rem: "sint (rc - weight ?x) = sint rc - wt ?x" by (rule sint_remaining[OF xnn True])
      have "wt ?x \<le> sint rc" using True by (simp add: word_sle_eq wt_def)
      then have rc': "0 \<le> sint (rc - weight ?x)" using rem by simp
      have "?b2 = ?b1 \<or> (\<exists>sel. subseq sel (drop (index + 1) ps) \<and> total_weight sel \<le> sint (rc - weight ?x) \<and>
                ?b2 = bf_leaf (cp + profit ?x) (cs @ [id_p ?x]) sel)"
        using "1.IH"(2)[OF ne refl True nn rc'] lt by simp
      then have "?b2 = ?b1 \<or> (\<exists>sel. subseq sel (drop index ps) \<and> total_weight sel \<le> sint rc \<and> ?b2 = bf_leaf cp cs sel)"
      proof
        assume "?b2 = ?b1" then show ?thesis by simp
      next
        assume "\<exists>sel. subseq sel (drop (index + 1) ps) \<and> total_weight sel \<le> sint (rc - weight ?x) \<and>
                ?b2 = bf_leaf (cp + profit ?x) (cs @ [id_p ?x]) sel"
        then obtain sel where s: "subseq sel (drop (index + 1) ps)"
           "total_weight sel \<le> sint (rc - weight ?x)"
           "?b2 = bf_leaf (cp + profit ?x) (cs @ [id_p ?x]) sel" by blast
        have "subseq (?x # sel) (drop index ps)" using s(1) dr by simp
        moreover have "total_weight (?x # sel) \<le> sint rc" using s(2) rem by simp
        moreover have "?b2 = bf_leaf cp cs (?x # sel)" using s(3) by (simp add: bf_leaf_def add.assoc)
        ultimately show ?thesis by blast
      qed
      moreover have "knapsackRecursive ps index rc cp cs best = ?b2" using True
        by (simp only: knapsackRecursive_step[OF lt] if_True)
      ultimately show ?thesis using h1 by metis
    next
      case False
      then have "knapsackRecursive ps index rc cp cs best = ?b1"
        by (simp only: knapsackRecursive_step[OF lt] if_False)
      then show ?thesis using h1 by simp
    qed
  qed
qed

lemma KBruteForce_is_leaf:
  assumes "0 \<le> sint C" "\<forall>p\<in>set ps. 0 \<le> wt p"
  shows "\<exists>sel. subseq sel ps \<and> total_weight sel \<le> sint C \<and>
           KBruteForce C ps = (profit_sum sel, map id_p sel)"
proof -
  from knapsackRecursive_attained[OF assms(2,1), of 0 0 "[]" "(0, [])"]
  have "KBruteForce C ps = (0, []) \<or>
        (\<exists>sel. subseq sel ps \<and> total_weight sel \<le> sint C \<and> KBruteForce C ps = bf_leaf 0 [] sel)"
    by (simp add: KBruteForce_def)
  then show ?thesis
  proof
    assume "KBruteForce C ps = (0, [])"
    then show ?thesis using assms by (intro exI[of _ "[]"]) simp
  next
    assume "\<exists>sel. subseq sel ps \<and> total_weight sel \<le> sint C \<and> KBruteForce C ps = bf_leaf 0 [] sel"
    then show ?thesis by (simp add: bf_leaf_def)
  qed
qed


section \<open>What branch and bound computes\<close>

lemma bb_geq_refl: "bb_geq a a"
  by (simp add: bb_geq_def word_sle_eq)

lemma bb_geq_trans: "bb_geq a b \<Longrightarrow> bb_geq b c \<Longrightarrow> bb_geq a c"
  by (auto simp: bb_geq_def word_sless_alt word_sle_eq)

lemma bb_geq_update:
  "bb_geq (if fst (snd best) <s cp \<or>
               (cp = fst (snd best) \<and>
                  (length cs < length (fst best) \<or>
                   (length cs = length (fst best) \<and> cw <s snd (snd best))))
            then (cs, cp, cw) else best) best"
  "bb_geq (if fst (snd best) <s cp \<or>
               (cp = fst (snd best) \<and>
                  (length cs < length (fst best) \<or>
                   (length cs = length (fst best) \<and> cw <s snd (snd best))))
            then (cs, cp, cw) else best) (cs, cp, cw)"
  using sint_inject[of cp "fst (snd best)"]
  by (auto simp: bb_geq_def word_sless_alt word_sle_eq)

lemma branchAndBound_leaf:
  "ps \<noteq> [] \<Longrightarrow> length ps \<le> idx \<Longrightarrow>
   branchAndBound ps idx c cw cp cs best =
     (if fst (snd best) <s cp \<or>
               (cp = fst (snd best) \<and>
                  (length cs < length (fst best) \<or>
                   (length cs = length (fst best) \<and> cw <s snd (snd best))))
            then (cs, cp, cw)
            else best)"
  by (subst branchAndBound.simps) (simp add: Let_def)

lemma branchAndBound_step:
  "idx < length ps \<Longrightarrow>
   branchAndBound ps idx c cw cp cs best =
     branchAndBound ps (idx + 1) c cw cp cs
       (if cw + weight (ps ! idx) \<le>s c
        then branchAndBound ps (idx + 1) c (cw + weight (ps ! idx)) (cp + profit (ps ! idx))
               (cs @ [id_p (ps ! idx)]) best
        else best)"
  by (subst branchAndBound.simps) (auto simp add: Let_def)

lemma branchAndBound_empty: "branchAndBound [] idx C cw cp cs best = best"
  by (subst branchAndBound.simps) simp

lemma branchAndBound_geq_best:
  "bb_geq (branchAndBound ps idx c cw cp cs best) best"
proof (induction ps idx c cw cp cs best rule: branchAndBound.induct)
  case (1 ps idx c cw cp cs best)
  show ?case
  proof (cases "ps = []")
    case True
    then show ?thesis by (simp add: branchAndBound_empty bb_geq_refl)
  next
    case ne: False
    show ?thesis
    proof (cases "idx < length ps")
      case False
      then show ?thesis using ne by (simp add: branchAndBound_leaf bb_geq_update(1))
    next
      case True
      then have nl: "\<not> length ps \<le> idx" by simp
      let ?x = "ps ! idx"
      let ?b1 = "if cw + weight ?x \<le>s c
        then branchAndBound ps (idx + 1) c (cw + weight ?x) (cp + profit ?x) (cs @ [id_p ?x]) best
        else best"
      have b1: "bb_geq ?b1 best"
        using "1.IH"(1)[OF refl refl refl ne nl refl] by (simp add: bb_geq_refl)
      have "bb_geq (branchAndBound ps (idx + 1) c cw cp cs ?b1) ?b1"
        using "1.IH"(2)[OF refl refl refl ne nl refl refl] .
      then have "bb_geq (branchAndBound ps (idx + 1) c cw cp cs ?b1) best"
        using b1 by (rule bb_geq_trans)
      then show ?thesis by (simp only: branchAndBound_step[OF True])
    qed
  qed
qed

lemma sint_used:
  assumes "0 \<le> sint cw" "0 \<le> wt x" "sint cw + wt x \<le> 2147483647"
  shows "sint (cw + weight x) = sint cw + wt x"
  using assms by (intro sint_add_in_range[of cw "weight x", folded wt_def]) (simp_all add: wt_def)

lemma branchAndBound_geq_leaf:
  assumes "\<forall>p\<in>set ps. 0 \<le> wt p" "subseq sel (drop idx ps)"
    "sint cw + total_weight sel \<le> sint c" "0 \<le> sint cw"
    "idx \<le> length ps" "ps \<noteq> []"
  shows "bb_geq (branchAndBound ps idx c cw cp cs best) (bb_leaf cw cp cs sel)"
  using assms
proof (induction ps idx c cw cp cs best arbitrary: sel rule: branchAndBound.induct)
  case (1 ps idx c cw cp cs best)
  note ne = \<open>ps \<noteq> []\<close>
  have nn: "\<forall>p\<in>set ps. 0 \<le> wt p" by (rule "1.prems"(1))
  have cw0: "0 \<le> sint cw" by (rule "1.prems"(4))
  show ?case
  proof (cases "idx < length ps")
    case False
    with "1.prems" have "sel = []" by simp
    with False ne show ?thesis
      by (simp add: branchAndBound_leaf bb_leaf_def bb_geq_update(2))
  next
    case lt: True
    then have nl: "\<not> length ps \<le> idx" by simp
    let ?x = "ps ! idx"
    let ?inc = "branchAndBound ps (idx + 1) c (cw + weight ?x) (cp + profit ?x) (cs @ [id_p ?x]) best"
    let ?b1 = "if cw + weight ?x \<le>s c then ?inc else best"
    let ?r = "branchAndBound ps (idx + 1) c cw cp cs ?b1"
    have r: "branchAndBound ps idx c cw cp cs best = ?r" by (rule branchAndBound_step[OF lt])
    have emb: "subseq sel (?x # drop (Suc idx) ps)"
      using "1.prems"(2) drop_step[OF lt] by simp
    have xnn: "0 \<le> wt ?x" using nn lt nth_mem by blast
    have "subseq sel (drop (idx + 1) ps) \<or>
          (\<exists>xs. sel = ?x # xs \<and> subseq xs (drop (idx + 1) ps))"
      using emb by (cases sel) (auto split: if_splits)
    then show ?thesis
    proof (elim disjE exE conjE)
      assume sub: "subseq sel (drop (idx + 1) ps)"
      have "bb_geq ?r (bb_leaf cw cp cs sel)"
        using "1.IH"(2)[OF refl refl refl ne nl refl refl nn sub "1.prems"(3) cw0] lt ne by simp
      then show ?thesis by (simp only: r)
    next
      fix xs
      assume sel: "sel = ?x # xs" and sub: "subseq xs (drop (idx + 1) ps)"
      have "set xs \<subseteq> set ps" using sub subseq_set_subset set_drop_subset by fast
      then have xs0: "0 \<le> total_weight xs" using nn by (intro total_weight_nonneg) auto
      have le: "sint cw + wt ?x + total_weight xs \<le> sint c" using "1.prems"(3) sel by simp
      have used: "sint (cw + weight ?x) = sint cw + wt ?x"
        using le xs0 sint_upper[of c] by (intro sint_used[OF cw0 xnn]) simp
      have fits: "cw + weight ?x \<le>s c" using le xs0 by (simp add: word_sle_eq used)
      have rest: "sint (cw + weight ?x) + total_weight xs \<le> sint c" using le used by simp
      have cw1: "0 \<le> sint (cw + weight ?x)" using used cw0 xnn by simp
      have "bb_geq ?inc (bb_leaf (cw + weight ?x) (cp + profit ?x) (cs @ [id_p ?x]) xs)"
        using "1.IH"(1)[OF refl refl refl ne nl refl fits nn sub rest cw1] lt ne by simp
      moreover have "bb_leaf (cw + weight ?x) (cp + profit ?x) (cs @ [id_p ?x]) xs = bb_leaf cw cp cs sel"
        by (simp add: bb_leaf_def sel add.assoc)
      moreover have "bb_geq ?r ?b1" by (rule branchAndBound_geq_best)
      ultimately have "bb_geq ?r (bb_leaf cw cp cs sel)" using fits
        by (auto intro: bb_geq_trans)
      then show ?thesis by (simp only: r)
    qed
  qed
qed

lemma branchAndBound_attained:
  assumes "\<forall>p\<in>set ps. 0 \<le> wt p \<and> sint c + wt p \<le> 2147483647"
    "0 \<le> sint cw" "sint cw \<le> sint c" "idx \<le> length ps" "ps \<noteq> []"
  shows "branchAndBound ps idx c cw cp cs best = best \<or>
         (\<exists>sel. subseq sel (drop idx ps) \<and> sint cw + total_weight sel \<le> sint c \<and>
                branchAndBound ps idx c cw cp cs best = bb_leaf cw cp cs sel)"
  using assms
proof (induction ps idx c cw cp cs best rule: branchAndBound.induct)
  case (1 ps idx c cw cp cs best)
  note ne = \<open>ps \<noteq> []\<close>
  have nn: "\<forall>p\<in>set ps. 0 \<le> wt p \<and> sint c + wt p \<le> 2147483647" by (rule "1.prems"(1))
  have cw0: "0 \<le> sint cw" and cwc: "sint cw \<le> sint c" by (rule "1.prems"(2), rule "1.prems"(3))
  show ?case
  proof (cases "idx < length ps")
    case False
    have "bb_leaf cw cp cs [] = (cs, cp, cw)" by (simp add: bb_leaf_def)
    then show ?thesis using False cwc ne
      by (simp add: branchAndBound_leaf) (auto intro!: exI[of _ "[]"])
  next
    case lt: True
    then have nl: "\<not> length ps \<le> idx" by simp
    let ?x = "ps ! idx"
    let ?inc = "branchAndBound ps (idx + 1) c (cw + weight ?x) (cp + profit ?x) (cs @ [id_p ?x]) best"
    let ?b1 = "if cw + weight ?x \<le>s c then ?inc else best"
    let ?r = "branchAndBound ps (idx + 1) c cw cp cs ?b1"
    have r: "branchAndBound ps idx c cw cp cs best = ?r" by (rule branchAndBound_step[OF lt])
    have dr: "drop idx ps = ?x # drop (idx + 1) ps" using drop_step[OF lt] by simp
    have xin: "?x \<in> set ps" using lt by simp
    have xnn: "0 \<le> wt ?x" and xfit: "sint c + wt ?x \<le> 2147483647" using nn xin by blast+
    have used: "sint (cw + weight ?x) = sint cw + wt ?x"
      using xfit cwc by (intro sint_used[OF cw0 xnn]) simp
    have h1: "?b1 = best \<or> (\<exists>sel. subseq sel (drop idx ps) \<and> sint cw + total_weight sel \<le> sint c \<and> ?b1 = bb_leaf cw cp cs sel)"
    proof (cases "cw + weight ?x \<le>s c")
      case False
      then show ?thesis by simp
    next
      case True
      have le: "sint (cw + weight ?x) \<le> sint c" using True by (simp add: word_sle_eq)
      have cw1: "0 \<le> sint (cw + weight ?x)" using used cw0 xnn by simp
      have "?inc = best \<or> (\<exists>sel. subseq sel (drop (idx + 1) ps) \<and>
                sint (cw + weight ?x) + total_weight sel \<le> sint c \<and>
                ?inc = bb_leaf (cw + weight ?x) (cp + profit ?x) (cs @ [id_p ?x]) sel)"
        using "1.IH"(1)[OF refl refl refl ne nl refl True nn cw1 le] lt ne by simp
      then show ?thesis
      proof
        assume "?inc = best" then show ?thesis using True by simp
      next
        assume "\<exists>sel. subseq sel (drop (idx + 1) ps) \<and>
                sint (cw + weight ?x) + total_weight sel \<le> sint c \<and>
                ?inc = bb_leaf (cw + weight ?x) (cp + profit ?x) (cs @ [id_p ?x]) sel"
        then obtain sel where s: "subseq sel (drop (idx + 1) ps)"
           "sint (cw + weight ?x) + total_weight sel \<le> sint c"
           "?inc = bb_leaf (cw + weight ?x) (cp + profit ?x) (cs @ [id_p ?x]) sel" by blast
        have "subseq (?x # sel) (drop idx ps)" using s(1) dr by simp
        moreover have "sint cw + total_weight (?x # sel) \<le> sint c" using s(2) used by simp
        moreover have "?b1 = bb_leaf cw cp cs (?x # sel)"
          using s(3) True by (simp add: bb_leaf_def add.assoc)
        ultimately show ?thesis by blast
      qed
    qed
    have h2: "?r = ?b1 \<or> (\<exists>sel. subseq sel (drop idx ps) \<and> sint cw + total_weight sel \<le> sint c \<and> ?r = bb_leaf cw cp cs sel)"
      using "1.IH"(2)[OF refl refl refl ne nl refl refl nn cw0 cwc] lt ne dr by auto
    from h1 h2 show ?thesis unfolding r by metis
  qed
qed

lemma branchAndBound_initial:
  assumes "0 \<le> sint C" and "\<forall>p\<in>set ps. 0 \<le> wt p \<and> sint C + wt p \<le> 2147483647"
  shows "\<exists>sel. subseq sel ps \<and> total_weight sel \<le> sint C \<and>
           branchAndBound ps 0 C 0 0 [] ([], 0, INT_MAX) =
             (map id_p sel, profit_sum sel,
              if ps = [] then INT_MAX else weight_sum sel) \<and>
           (\<forall>sel'. subseq sel' ps \<and> total_weight sel' \<le> sint C \<longrightarrow>
              bb_geq (bb_leaf 0 0 [] sel) (bb_leaf 0 0 [] sel'))"
proof (cases "ps = []")
  case True
  show ?thesis
    using assms(1) True
    by (intro exI[of _ "[]"]) (auto simp: branchAndBound_empty bb_geq_refl dest: list_emb_Nil2)
next
  case ne: False
  have nn: "\<forall>p\<in>set ps. 0 \<le> wt p" using assms(2) by simp
  let ?r = "branchAndBound ps 0 C 0 0 [] ([], 0, INT_MAX)"
  have geq: "bb_geq ?r (bb_leaf 0 0 [] sel')"
    if "subseq sel' ps" "total_weight sel' \<le> sint C" for sel'
    using branchAndBound_geq_leaf[OF nn, of sel' 0 0 C 0 "[]" "([], 0, INT_MAX)"] that ne
    by simp
  have "bb_geq ?r (bb_leaf 0 0 [] [])"
    using geq[of "[]"] assms(1) by simp
  then have "?r \<noteq> ([], 0, INT_MAX)"
    by (auto simp: bb_geq_def bb_leaf_def INT_MAX_def word_sle_eq)
  with branchAndBound_attained[OF assms(2) _ _ _ ne, of 0 0 0 "[]" "([], 0, INT_MAX)"] assms(1)
  obtain sel where sel: "subseq sel ps" "total_weight sel \<le> sint C" "?r = bb_leaf 0 0 [] sel"
    by auto
  show ?thesis
  proof (intro exI[of _ sel] conjI allI impI)
    show "subseq sel ps" "total_weight sel \<le> sint C" by fact+
    show "?r = (map id_p sel, profit_sum sel, if ps = [] then INT_MAX else weight_sum sel)"
      using ne by (simp add: sel(3) bb_leaf_def)
    fix sel' assume "subseq sel' ps \<and> total_weight sel' \<le> sint C"
    then show "bb_geq (bb_leaf 0 0 [] sel) (bb_leaf 0 0 [] sel')"
      using geq[of sel'] by (simp add: sel(3))
  qed
qed




section \<open>What the profit table holds\<close>

lemma shape_set2: "shape n c t \<Longrightarrow> shape n c (set2 t i w v)"
  by (cases "i < length t") (auto simp: shape_def set2_def nth_list_update)

lemma nth_set2:
  "shape n c t \<Longrightarrow> i \<le> n \<Longrightarrow> w \<le> c \<Longrightarrow>
   set2 t i w v ! j ! k = (if j = i \<and> k = w then v else t ! j ! k)"
  by (auto simp: shape_def set2_def nth_list_update)

lemma shape_replicate: "shape n c (replicate (n + 1) (replicate (c + 1) 0))"
  by (auto simp: shape_def nth_replicate simp del: replicate_Suc)

lemma sint_smax: "sint (smax a b) = max (sint a) (sint b)"
  by (simp add: smax_def word_sless_alt max_def)

lemma smax_cases:
  "smax a b = (if a <s b then b else if b <s a then a else b)"
  using sint_inject[of a b] by (auto simp: smax_def word_sless_alt)

lemma dp_cell_fst: "fst (dp_cell ps i w (dp, cnt)) = dp_cell_nocount ps i w dp"
  by (simp add: dp_cell_def dp_cell_nocount_def Let_def smax_cases)

lemma fill_row_fst: "fst (fill_row ps c i w tabs) = fill_row_nocount ps c i w (fst tabs)"
proof (induction ps c i w tabs rule: fill_row.induct)
  case (1 ps c i w tabs)
  show ?case
  proof (cases "w \<le> c")
    case True
    have "fst (dp_cell ps i w tabs) = dp_cell_nocount ps i w (fst tabs)"
      using dp_cell_fst[of ps i w "fst tabs" "snd tabs"] by simp
    with "1.IH"[OF True] True show ?thesis
      by (subst fill_row.simps, subst fill_row_nocount.simps) simp
  next
    case False
    then show ?thesis
      by (subst fill_row.simps, subst fill_row_nocount.simps) simp
  qed
qed

lemma fill_table_fst: "fst (fill_table ps c n i tabs) = fill_table_nocount ps c n i (fst tabs)"
proof (induction ps c n i tabs rule: fill_table.induct)
  case (1 ps c n i tabs)
  show ?case
  proof (cases "i \<le> n")
    case True
    with "1.IH"[OF True] show ?thesis
      by (subst fill_table.simps, subst fill_table_nocount.simps) (simp add: fill_row_fst)
  next
    case False
    then show ?thesis
      by (subst fill_table.simps, subst fill_table_nocount.simps) simp
  qed
qed

lemma dp_cell_nocount_value:
  assumes sh: "shape n c dp" and i: "i < n" and w: "w \<le> c"
    and prev: "row_ok ps c dp i" and nn: "0 \<le> wt (ps ! i)"
    and fit: "wt (ps ! i) \<le> int w \<Longrightarrow>
        - 2147483648 \<le> pf (ps ! i) + best_profit ps i (nat (int w - wt (ps ! i))) \<and>
        pf (ps ! i) + best_profit ps i (nat (int w - wt (ps ! i))) \<le> 2147483647"
  shows "\<exists>v. dp_cell_nocount ps (Suc i) w dp = set2 dp (Suc i) w v \<and>
             sint v = best_profit ps (Suc i) w"
proof (cases "wt (ps ! i) \<le> int w")
  case False
  have a: "sint (dp ! i ! w) = best_profit ps i w" using prev w by (simp add: row_ok_def)
  show ?thesis
    using False a by (intro exI[of _ "dp ! i ! w"]) (simp add: dp_cell_nocount_def Let_def wt_def)
next
  case True
  let ?k = "nat (int w - wt (ps ! i))"
  have a: "sint (dp ! i ! w) = best_profit ps i w" using prev w by (simp add: row_ok_def)
  have "?k \<le> c" using nn w True by linarith
  then have b: "sint (dp ! i ! ?k) = best_profit ps i ?k" using prev by (simp add: row_ok_def)
  have s: "sint (profit (ps ! i) + dp ! i ! ?k) = pf (ps ! i) + best_profit ps i ?k"
    using fit[OF True] b
    by (subst sint_add_in_range) (simp_all add: pf_def)
  let ?v = "smax (dp ! i ! w) (profit (ps ! i) + dp ! i ! ?k)"
  have "dp_cell_nocount ps (Suc i) w dp = set2 dp (Suc i) w ?v"
    using True by (simp add: dp_cell_nocount_def Let_def wt_def)
  moreover have "sint ?v = best_profit ps (Suc i) w"
    using True a s by (simp add: sint_smax)
  ultimately show ?thesis by blast
qed

lemma fill_row_nocount_inv:
  assumes "shape n c dp" "i < n" "row_ok ps c dp i" "0 \<le> wt (ps ! i)"
    "\<forall>k\<le>c. wt (ps ! i) \<le> int k \<longrightarrow>
        - 2147483648 \<le> pf (ps ! i) + best_profit ps i (nat (int k - wt (ps ! i))) \<and>
        pf (ps ! i) + best_profit ps i (nat (int k - wt (ps ! i))) \<le> 2147483647"
  shows "let dp' = fill_row_nocount ps c (Suc i) w dp in
         shape n c dp' \<and>
         (\<forall>j k. j \<noteq> Suc i \<or> k < w \<longrightarrow> dp' ! j ! k = dp ! j ! k) \<and>
         (\<forall>k. w \<le> k \<and> k \<le> c \<longrightarrow> sint (dp' ! Suc i ! k) = best_profit ps (Suc i) k)"
  using assms
proof (induction ps c "Suc i" w dp rule: fill_row_nocount.induct)
  case (1 ps c w dp)
  show ?case
  proof (cases "w \<le> c")
    case False
    then show ?thesis by (subst fill_row_nocount.simps) (simp add: "1.prems"(1))
  next
    case True
    let ?dp1 = "dp_cell_nocount ps (Suc i) w dp"
    from dp_cell_nocount_value[OF "1.prems"(1,2) True "1.prems"(3,4)] "1.prems"(5) True
    obtain v where d1: "?dp1 = set2 dp (Suc i) w v" and v: "sint v = best_profit ps (Suc i) w"
      by blast
    have sh1: "shape n c ?dp1" using "1.prems"(1) by (simp add: d1 shape_set2)
    have nth1: "\<And>j k. ?dp1 ! j ! k = (if j = Suc i \<and> k = w then v else dp ! j ! k)"
      using nth_set2[OF "1.prems"(1) _ True, of "Suc i"] "1.prems"(2) by (simp add: d1)
    have ro1: "row_ok ps c ?dp1 i" using "1.prems"(3) by (simp add: row_ok_def nth1)
    have step: "fill_row_nocount ps c (Suc i) w dp = fill_row_nocount ps c (Suc i) (w + 1) ?dp1"
      using True by (subst fill_row_nocount.simps) simp
    define dp2 where "dp2 = fill_row_nocount ps c (Suc i) (w + 1) ?dp1"
    have IH: "shape n c dp2"
      "\<And>j k. j \<noteq> Suc i \<or> k < w + 1 \<Longrightarrow> dp2 ! j ! k = ?dp1 ! j ! k"
      "\<And>k. w + 1 \<le> k \<Longrightarrow> k \<le> c \<Longrightarrow> sint (dp2 ! Suc i ! k) = best_profit ps (Suc i) k"
      using "1.hyps"[OF True sh1 "1.prems"(2) ro1 "1.prems"(4,5)]
      unfolding dp2_def Let_def by blast+
    have a: "dp2 ! j ! k = dp ! j ! k" if "j \<noteq> Suc i \<or> k < w" for j k
    proof -
      have "dp2 ! j ! k = ?dp1 ! j ! k" using that by (intro IH(2)) auto
      also have "\<dots> = dp ! j ! k" using that by (auto simp: nth1)
      finally show ?thesis .
    qed
    have b: "sint (dp2 ! Suc i ! k) = best_profit ps (Suc i) k" if "w \<le> k" "k \<le> c" for k
    proof (cases "k = w")
      case True
      then have "dp2 ! Suc i ! k = ?dp1 ! Suc i ! k" by (intro IH(2)) simp
      then show ?thesis using True v by (simp add: nth1)
    next
      case False
      with that show ?thesis by (intro IH(3)) auto
    qed
    show ?thesis unfolding step Let_def dp2_def[symmetric]
      using IH(1) a b by blast
  qed
qed

lemma row_ok_cong:
  "row_ok ps c dp i \<Longrightarrow> (\<And>k. dp' ! i ! k = dp ! i ! k) \<Longrightarrow> row_ok ps c dp' i"
  by (simp add: row_ok_def)

lemma fill_table_nocount_inv:
  assumes "shape n c dp" "\<forall>j<i. row_ok ps c dp j" "0 < i" "n \<le> length ps"
    "\<forall>p\<in>set ps. 0 \<le> wt p" "sums_fit ps n c"
  shows "let dp' = fill_table_nocount ps c n i dp in
         shape n c dp' \<and> (\<forall>j\<le>n. row_ok ps c dp' j)"
  using assms
proof (induction ps c n i dp rule: fill_table_nocount.induct)
  case (1 ps c n i dp)
  show ?case
  proof (cases "i \<le> n")
    case False
    then have "\<forall>j\<le>n. row_ok ps c dp j" using "1.prems"(2) by auto
    with False "1.prems"(1) show ?thesis
      by (subst fill_table_nocount.simps) simp
  next
    case True
    obtain i' where i': "i = Suc i'" using "1.prems"(3) by (cases i) auto
    have lt: "i' < n" using True i' by simp
    have prev: "row_ok ps c dp i'" using "1.prems"(2) i' by simp
    have "i' < length ps" using lt "1.prems"(4) by simp
    then have nn: "0 \<le> wt (ps ! i')" using "1.prems"(5) nth_mem by blast
    have fit: "\<forall>k\<le>c. wt (ps ! i') \<le> int k \<longrightarrow>
        - 2147483648 \<le> pf (ps ! i') + best_profit ps i' (nat (int k - wt (ps ! i'))) \<and>
        pf (ps ! i') + best_profit ps i' (nat (int k - wt (ps ! i'))) \<le> 2147483647"
      using "1.prems"(6) lt unfolding sums_fit_def by blast
    define dp1 where "dp1 = fill_row_nocount ps c i 0 dp"
    have r: "shape n c dp1"
      "\<And>j k. j \<noteq> Suc i' \<Longrightarrow> dp1 ! j ! k = dp ! j ! k"
      "\<And>k. k \<le> c \<Longrightarrow> sint (dp1 ! Suc i' ! k) = best_profit ps (Suc i') k"
      using fill_row_nocount_inv[OF "1.prems"(1) lt prev nn fit, of 0]
      unfolding dp1_def i' Let_def by simp_all
    have ok1: "\<forall>j<i + 1. row_ok ps c dp1 j"
    proof (intro allI impI)
      fix j assume "j < i + 1"
      show "row_ok ps c dp1 j"
      proof (cases "j = i")
        case True
        then show ?thesis using r(3) i' by (simp add: row_ok_def)
      next
        case False
        with \<open>j < i + 1\<close> have "j < i" by simp
        then have "row_ok ps c dp j" using "1.prems"(2) by simp
        then show ?thesis using r(2)[of j] False i' by (intro row_ok_cong[of ps c dp j dp1]) auto
      qed
    qed
    have step: "fill_table_nocount ps c n i dp = fill_table_nocount ps c n (i + 1) dp1"
      using True by (subst fill_table_nocount.simps) (simp add: dp1_def)
    show ?thesis unfolding step
      using "1.IH"[OF True, folded dp1_def, OF r(1) ok1 _ "1.prems"(4,5,6)] by simp
  qed
qed

lemma row_ok_initial: "row_ok ps c (replicate (n + 1) (replicate (c + 1) 0)) 0"
  by (simp add: row_ok_def nth_replicate del: replicate_Suc)

lemma fill_table_nocount_rows:
  assumes "\<forall>p\<in>set ps. 0 \<le> wt p" "sums_fit ps (length ps) c"
  shows "\<forall>j\<le>length ps. row_ok ps c
           (fill_table_nocount ps c (length ps) 1 (replicate (length ps + 1) (replicate (c + 1) 0))) j"
proof -
  let ?dp0 = "replicate (length ps + 1) (replicate (c + 1) 0)"
  have "\<forall>j<1. row_ok ps c ?dp0 j" using row_ok_initial[of ps c "length ps"] by simp
  from fill_table_nocount_inv[OF shape_replicate this _ _ assms]
  show ?thesis by (simp add: Let_def)
qed

lemma KDynamic_unfold:
  assumes "0 \<le> sint C" "sint C < 2147483647"
  shows "KDynamic C ps =
     Some (fill_table_nocount ps (nat (sint C)) (length ps) 1
             (replicate (length ps + 1) (replicate (nat (sint C) + 1) 0)) ! length ps ! nat (sint C),
           rev (reconstruct ps
             (fill_table_nocount ps (nat (sint C)) (length ps) 1
               (replicate (length ps + 1) (replicate (nat (sint C) + 1) 0))) (length ps) C []))"
proof -
  have "sint (C + 1) = sint C + 1"
    using assms by (subst sint_add_in_range) simp_all
  then have "\<not> (C <s 0 \<or> C + 1 <s 0)" using assms by (simp add: word_sless_alt)
  then show ?thesis by (simp add: KDynamic_def Let_def fill_table_fst)
qed

section \<open>The recurrence is the optimum\<close>

lemma take_step: "i < length ps \<Longrightarrow> take (Suc i) ps = take i ps @ [ps ! i]"
  by (simp add: take_Suc_conv_app_nth)






lemma sums_fit_capacity_0:
  assumes "\<forall>p\<in>set ps. 0 < wt p"
  shows "sums_fit ps (length ps) 0"
  unfolding sums_fit_def
proof (intro allI impI)
  fix i w assume "i < length ps" "w \<le> (0::nat)" "wt (ps ! i) \<le> int w"
  moreover have "0 < wt (ps ! i)" using assms \<open>i < length ps\<close> nth_mem by blast
  ultimately have False by simp
  then show "- 2147483648 \<le> pf (ps ! i) + best_profit ps i (nat (int w - wt (ps ! i))) \<and>
             pf (ps ! i) + best_profit ps i (nat (int w - wt (ps ! i))) \<le> 2147483647" ..
qed

lemma KDynamic_profit:
  assumes "0 \<le> sint C" "sint C < 2147483647" "\<forall>p\<in>set ps. 0 \<le> wt p"
    "sums_fit ps (length ps) (nat (sint C))"
  shows "\<exists>d ids. KDynamic C ps = Some (d, ids) \<and>
           sint d = best_profit ps (length ps) (nat (sint C))"
  using fill_table_nocount_rows[OF assms(3,4)]
  by (simp add: KDynamic_unfold[OF assms(1,2)] row_ok_def)

section \<open>What the reconstruction reports\<close>

lemma best_profit_capacity_0:
  "\<forall>p\<in>set ps. 0 < wt p \<Longrightarrow> i \<le> length ps \<Longrightarrow> best_profit ps i 0 = 0"
proof (induction i)
  case 0
  show ?case by simp
next
  case (Suc i)
  have lt: "i < length ps" using Suc.prems(2) by simp
  have "0 < wt (ps ! i)" using Suc.prems(1) nth_mem[OF lt] by blast
  then have "\<not> wt (ps ! i) \<le> 0" by simp
  moreover have "best_profit ps i 0 = 0" using Suc.IH Suc.prems lt by simp
  ultimately show ?case by simp
qed

lemma reconstruct_capacity_0: "reconstruct ps dp n 0 acc = acc"
  by (cases n) simp_all

lemma reconstruct_selects:
  assumes pos: "\<forall>p\<in>set ps. 0 < wt p"
    and rows: "\<forall>j\<le>n. row_ok ps c dp j"
    and n: "n \<le> length ps"
  shows "i \<le> n \<Longrightarrow> 0 \<le> sint w \<Longrightarrow> sint w \<le> int c \<Longrightarrow>
         \<exists>sel. subseq sel (take i ps) \<and> total_weight sel \<le> sint w \<and>
               total_profit sel = best_profit ps i (nat (sint w)) \<and>
               reconstruct ps dp i w acc = acc @ rev (map id_p sel)"
proof (induction i arbitrary: w acc)
  case 0
  show ?case using "0.prems" by (intro exI[of _ "[]"]) simp
next
  case (Suc i)
  have lt: "i < length ps" using Suc.prems(1) n by simp
  let ?x = "ps ! i"
  let ?k = "nat (sint w)"
  have tk: "take (Suc i) ps = take i ps @ [?x]" by (rule take_step[OF lt])
  have wc: "?k \<le> c" using Suc.prems(2,3) by simp
  have cur: "sint (dp ! Suc i ! ?k) = best_profit ps (Suc i) ?k"
    using rows Suc.prems(1) wc by (simp add: row_ok_def)
  have prev: "sint (dp ! i ! ?k) = best_profit ps i ?k"
    using rows Suc.prems(1) wc by (simp add: row_ok_def)
  show ?case
  proof (cases "0 <s w")
    case False
    then have w0: "sint w = 0" using Suc.prems(2) by (simp add: word_sless_alt)
    have "best_profit ps (Suc i) 0 = 0"
      using best_profit_capacity_0[OF pos, of "Suc i"] lt by simp
    then show ?thesis using w0 False by (intro exI[of _ "[]"]) simp
  next
    case True
    then have wpos: "0 < sint w" by (simp add: word_sless_alt)
    show ?thesis
    proof (cases "dp ! Suc i ! ?k \<noteq> dp ! i ! ?k")
      case False
      from Suc.IH[of w acc] Suc.prems
      obtain sel where sel: "subseq sel (take i ps)" "total_weight sel \<le> sint w"
        "total_profit sel = best_profit ps i ?k"
        "reconstruct ps dp i w acc = acc @ rev (map id_p sel)" by auto
      have "sint (dp ! Suc i ! ?k) = sint (dp ! i ! ?k)" using False by simp
      then have "best_profit ps (Suc i) ?k = best_profit ps i ?k" unfolding cur prev .
      then have "total_profit sel = best_profit ps (Suc i) ?k"
        using sel(3) by (simp only:)
      moreover have "reconstruct ps dp (Suc i) w acc = acc @ rev (map id_p sel)"
        using True False sel(4) by simp
      moreover have "subseq sel (take (Suc i) ps)"
        using sel(1) by (simp add: tk subseq_rev_drop_many)
      ultimately show ?thesis using sel(2) by blast
    next
      case diff: True
      then have "sint (dp ! Suc i ! ?k) \<noteq> sint (dp ! i ! ?k)" by (simp add: sint_inject)
      then have ne: "best_profit ps (Suc i) ?k \<noteq> best_profit ps i ?k"
        unfolding cur prev .
      then have fits: "wt ?x \<le> sint w" using wpos by (auto split: if_splits)
      have xpos: "0 < wt ?x" using pos lt nth_mem by blast
      let ?w' = "w - weight ?x"
      have rem: "sint ?w' = sint w - wt ?x"
        using fits xpos by (intro sint_remaining) (simp_all add: word_sle_eq wt_def)
      have val: "best_profit ps (Suc i) ?k = pf ?x + best_profit ps i (nat (sint ?w'))"
        using ne fits wpos by (auto simp: max_def rem split: if_splits)
      from Suc.IH[of ?w' "acc @ [id_p ?x]"] Suc.prems fits xpos rem
      obtain sel where sel: "subseq sel (take i ps)" "total_weight sel \<le> sint ?w'"
        "total_profit sel = best_profit ps i (nat (sint ?w'))"
        "reconstruct ps dp i ?w' (acc @ [id_p ?x]) = (acc @ [id_p ?x]) @ rev (map id_p sel)"
        by auto
      show ?thesis
      proof (intro exI[of _ "sel @ [?x]"] conjI)
        show "subseq (sel @ [?x]) (take (Suc i) ps)" using sel(1) by (simp add: tk)
        show "total_weight (sel @ [?x]) \<le> sint w" using sel(2) rem by simp
        show "total_profit (sel @ [?x]) = best_profit ps (Suc i) ?k"
          using sel(3) val by simp
        show "reconstruct ps dp (Suc i) w acc = acc @ rev (map id_p (sel @ [?x]))"
          using True diff sel(4) by simp
      qed
    qed
  qed
qed

lemma KDynamic_selection_positive_weights:
  assumes "0 \<le> sint C" "sint C < 2147483647" and "\<forall>p\<in>set ps. 0 < wt p"
    and "sums_fit ps (length ps) (nat (sint C))"
  shows "\<exists>sel d. subseq sel ps \<and> total_weight sel \<le> sint C \<and>
           KDynamic C ps = Some (d, map id_p sel) \<and> sint d = total_profit sel"
proof -
  have nn: "\<forall>p\<in>set ps. 0 \<le> wt p" using assms(3) by force
  define dp where "dp = fill_table_nocount ps (nat (sint C)) (length ps) 1
                     (replicate (length ps + 1) (replicate (nat (sint C) + 1) 0))"
  have rows: "\<forall>j\<le>length ps. row_ok ps (nat (sint C)) dp j"
    unfolding dp_def by (rule fill_table_nocount_rows[OF nn assms(4)])
  from reconstruct_selects[OF assms(3) rows, of "length ps" C "[]"] assms(1)
  obtain sel where sel: "subseq sel ps" "total_weight sel \<le> sint C"
    "total_profit sel = best_profit ps (length ps) (nat (sint C))"
    "reconstruct ps dp (length ps) C [] = rev (map id_p sel)" by auto
  have "sint (dp ! length ps ! nat (sint C)) = best_profit ps (length ps) (nat (sint C))"
    using rows by (simp add: row_ok_def)
  moreover have "KDynamic C ps =
      Some (dp ! length ps ! nat (sint C), rev (reconstruct ps dp (length ps) C []))"
    unfolding dp_def by (rule KDynamic_unfold[OF assms(1,2)])
  ultimately have "KDynamic C ps = Some (dp ! length ps ! nat (sint C), map id_p sel) \<and>
      sint (dp ! length ps ! nat (sint C)) = total_profit sel"
    using sel(3,4) by simp
  with sel(1,2) show ?thesis by blast
qed

section \<open>What the greedy loop selects\<close>

lemma subseq_mset_subset: "subseq sel xs \<Longrightarrow> mset sel \<subseteq># mset xs"
proof (induction rule: list_emb.induct)
  case (list_emb_Nil ys)
  show ?case by simp
next
  case (list_emb_Cons xs ys y)
  then show ?case
    by (metis mset.simps(2) multi_psub_of_add_self subset_mset.inf.orderE
        subset_mset.le_inf_iff subset_mset.le_less)
next
  case (list_emb_Cons2 x y xs ys)
  then show ?case by simp
qed

lemma mset_subset_subseq:
  "mset sel \<subseteq># mset ps \<Longrightarrow> \<exists>sel'. subseq sel' ps \<and> mset sel' = mset sel"
proof (induction ps arbitrary: sel)
  case Nil
  then show ?case by simp
next
  case (Cons x ps)
  show ?case
  proof (cases "x \<in> set sel")
    case True
    have "mset (remove1 x sel) \<subseteq># mset ps"
      using Cons.prems True by (simp add: subset_eq_diff_conv)
    from Cons.IH[OF this] obtain s where s: "subseq s ps" "mset s = mset (remove1 x sel)" by blast
    have "subseq (x # s) (x # ps)" using s(1) by simp
    moreover have "mset (x # s) = mset sel" using s(2) True by simp
    ultimately show ?thesis by blast
  next
    case False
    then have "mset sel \<subseteq># mset ps"
      using Cons.prems
      by (metis mset.simps(2) Diff_eq_empty_iff_mset minus_add_mset_if_not_in_lhs set_mset_mset)
    from Cons.IH[OF this] obtain s where s: "subseq s ps" "mset s = mset sel" by blast
    then show ?thesis by (intro exI[of _ s]) (simp add: list_emb_Cons)
  qed
qed

lemma total_weight_mset: "mset a = mset b \<Longrightarrow> total_weight a = total_weight b"
  unfolding total_weight_def by (metis mset_map sum_mset_sum_list)

lemma profit_sum_mset: "mset a = mset b \<Longrightarrow> profit_sum a = profit_sum b"
  unfolding profit_sum_def by (metis mset_map sum_mset_sum_list)

lemma mset_shift_in: "mset (shift_in cmp x ys) = add_mset x (mset ys)"
  by (induction ys) auto

lemma mset_sort_insert: "mset (sort_insert cmp ys x) = add_mset x (mset ys)"
  by (simp add: sort_insert_def mset_shift_in)

lemma mset_foldl_sort_insert:
  "mset (foldl (sort_insert cmp) acc xs) = mset acc + mset xs"
  by (induction xs arbitrary: acc) (simp_all add: mset_sort_insert)

lemma mset_std_sort: "mset (std_sort cmp xs) = mset xs"
  by (simp add: std_sort_def mset_foldl_sort_insert)

lemma KProxy_loop_selects:
  "\<forall>p\<in>set xs. 0 \<le> wt p \<and> sint c + wt p \<le> 2147483647 \<Longrightarrow>
   0 \<le> sint tw \<Longrightarrow> sint tw \<le> sint c \<Longrightarrow>
   \<exists>sel. subseq sel xs \<and> sint tw + total_weight sel \<le> sint c \<and>
     KProxy_loop c xs (tp, tw, ids) =
       (tp + profit_sum sel, tw + weight_sum sel, ids @ map id_p sel)"
proof (induction xs arbitrary: tp tw ids)
  case Nil
  then show ?case by (intro exI[of _ "[]"]) simp
next
  case (Cons p xs)
  have rest: "\<forall>p\<in>set xs. 0 \<le> wt p \<and> sint c + wt p \<le> 2147483647" using Cons.prems(1) by simp
  have p0: "0 \<le> wt p" and pfit: "sint c + wt p \<le> 2147483647" using Cons.prems(1) by simp_all
  have used: "sint (tw + weight p) = sint tw + wt p"
    using pfit Cons.prems(3) by (intro sint_used[OF Cons.prems(2) p0]) simp
  show ?case
  proof (cases "tw + weight p \<le>s c")
    case True
    have le: "sint (tw + weight p) \<le> sint c" using True by (simp add: word_sle_eq)
    have ge: "0 \<le> sint (tw + weight p)" using used Cons.prems(2) p0 by simp
    from Cons.IH[OF rest ge le, of "tp + profit p" "ids @ [id_p p]"]
    obtain sel where s: "subseq sel xs" "sint (tw + weight p) + total_weight sel \<le> sint c"
      "KProxy_loop c xs (tp + profit p, tw + weight p, ids @ [id_p p]) =
         (tp + profit p + profit_sum sel, tw + weight p + weight_sum sel,
          (ids @ [id_p p]) @ map id_p sel)"
      by blast
    show ?thesis
      using s True used by (intro exI[of _ "p # sel"]) (simp add: add.assoc)
  next
    case False
    from Cons.IH[OF rest Cons.prems(2,3), of tp ids]
    obtain sel where s: "subseq sel xs" "sint tw + total_weight sel \<le> sint c"
      "KProxy_loop c xs (tp, tw, ids) =
         (tp + profit_sum sel, tw + weight_sum sel, ids @ map id_p sel)"
      by blast
    show ?thesis
      using s False by (intro exI[of _ sel]) (simp add: list_emb_Cons)
  qed
qed

lemma KProxy_sorted_selects:
  assumes "0 \<le> sint c" "mset srt = mset ps"
    "\<forall>p\<in>set ps. 0 \<le> wt p \<and> sint c + wt p \<le> 2147483647"
  shows "\<exists>sel. subseq sel ps \<and> total_weight sel \<le> sint c \<and>
           fst (KProxy_sorted c srt) = profit_sum sel \<and>
           mset (snd (KProxy_sorted c srt)) = mset (map id_p sel)"
proof -
  have "set srt = set ps" using assms(2) by (metis set_mset_mset)
  then have h: "\<forall>p\<in>set srt. 0 \<le> wt p \<and> sint c + wt p \<le> 2147483647" using assms(3) by simp
  from KProxy_loop_selects[OF h _ _, of 0 0 "[]"] assms(1)
  obtain s where s: "subseq s srt" "total_weight s \<le> sint c"
    "KProxy_loop c srt (0, 0, []) = (profit_sum s, weight_sum s, map id_p s)" by auto
  have "mset s \<subseteq># mset ps" using subseq_mset_subset[OF s(1)] assms(2) by simp
  from mset_subset_subseq[OF this] obtain sel where sel: "subseq sel ps" "mset sel = mset s" by blast
  show ?thesis
  proof (intro exI[of _ sel] conjI)
    show "subseq sel ps" by fact
    show "total_weight sel \<le> sint c" using s(2) total_weight_mset[OF sel(2)] by simp
    show "fst (KProxy_sorted c srt) = profit_sum sel"
      using s(3) profit_sum_mset[OF sel(2)] by (simp add: KProxy_sorted_def)
    show "mset (snd (KProxy_sorted c srt)) = mset (map id_p sel)"
      using s(3) sel(2) by (simp add: KProxy_sorted_def)
  qed
qed

section \<open>Sums of feasible subsets fit\<close>


section \<open>The claims\<close>
















text \<open>
  Claim C6 says that the selection reconstructed by \<^verbatim>\<open>KDynamic\<close> has a total weight of
  at most the capacity and a total profit equal to the returned \<^verbatim>\<open>dp[n][capacity]\<close>.
  When all weights are positive and the sums fit, this holds
  (\<open>KDynamic_selection_positive_weights\<close>).  On a list with a pallet of weight 0 it does
  not: with capacity 3, \<^verbatim>\<open>KDynamic\<close> returns the profit 6 of both pallets, but the
  reconstruction loop stops as soon as \<open>w\<close> reaches 0 and reports pallet 2 alone, whose
  profit is 1.
\<close>

theorem KDynamic_weightless_selection:
  "KDynamic 3 weightless_pallets = Some (6, [2]) \<and>
   total_profit (named_pallets weightless_pallets [2]) = 1"
proof -
  have a: "KDynamic 3 weightless_pallets = Some (6, [2])"
    unfolding weightless_pallets_def by code_simp
  have b: "total_profit (named_pallets weightless_pallets [2]) = 1"
    by (simp add: weightless_pallets_def named_pallets_def pf_def)
  from a b show ?thesis by (intro conjI)
qed

text \<open>
  Claim C7 as stated fails on a pallet of weight 0 and profit 5: with capacity 0 the pallet
  still fits, so the exact solvers return profit 5, and the recursive ones select it.
\<close>

theorem capacity_0_weightless_counterexample:
  "KBruteForce 0 [\<lparr>id_p = 1, weight = 0, profit = 5\<rparr>] = (5, [1]) \<and>
   KDynamic 0 [\<lparr>id_p = 1, weight = 0, profit = 5\<rparr>] = Some (5, []) \<and>
   solveILP [\<lparr>id_p = 1, weight = 0, profit = 5\<rparr>] 0 =
     \<lparr>selectedPallets = [1], totalProfit = 5, totalWeight = 0\<rparr>"
proof -
  have a: "KBruteForce 0 [\<lparr>id_p = 1, weight = 0, profit = 5\<rparr>] = (5, [1])"
    by code_simp
  have b: "KDynamic 0 [\<lparr>id_p = 1, weight = 0, profit = 5\<rparr>] = Some (5, [])"
    by code_simp
  have c: "solveILP [\<lparr>id_p = 1, weight = 0, profit = 5\<rparr>] 0 =
     \<lparr>selectedPallets = [1], totalProfit = 5, totalWeight = 0\<rparr>"
    by code_simp
  from a b c show ?thesis by (intro conjI)
qed

text \<open>
  Claim C7, amended.  For every non-empty list of pallets with positive weights and
  non-negative profits, each of the four solvers called with capacity 0 returns profit 0
  and an empty selection.
\<close>

theorem capacity_0_positive_weights:
  assumes "ps \<noteq> []" and "\<forall>p\<in>set ps. 0 < wt p \<and> 0 \<le> pf p"
  shows "KBruteForce 0 ps = (0, []) \<and>
         KDynamic 0 ps = Some (0, []) \<and>
         KProxy 0 ps = (0, []) \<and>
         solveILP ps 0 = \<lparr>selectedPallets = [], totalProfit = 0, totalWeight = 0\<rparr>"
proof -
  have pos: "\<forall>p\<in>set ps. 0 < wt p" using assms(2) by simp
  then have nn: "\<forall>p\<in>set ps. 0 \<le> wt p" by force
  have nw: "\<forall>p\<in>set ps. 0 \<le> wt p \<and> sint (0 :: cint) + wt p \<le> 2147483647"
    using nn sint_upper by (simp add: wt_def)
  have none: "sel = []" if "subseq sel ps" "total_weight sel \<le> 0" for sel
  proof (rule positive_weights_nothing_fits)
    show "\<forall>p\<in>set sel. 0 < wt p" using pos subseq_set_subset[OF that(1)] by blast
    show "total_weight sel \<le> 0" by fact
  qed
  have a: "KBruteForce 0 ps = (0, [])"
  proof -
    from KBruteForce_is_leaf[OF _ nn, of 0]
    obtain sel where "subseq sel ps" "total_weight sel \<le> 0"
      "KBruteForce 0 ps = (profit_sum sel, map id_p sel)" by auto
    with none[of sel] show ?thesis by simp
  qed
  have b: "KDynamic 0 ps = Some (0, [])"
  proof -
    have u: "KDynamic 0 ps =
        Some (fill_table_nocount ps 0 (length ps) 1
                (replicate (length ps + 1) (replicate (0 + 1) 0)) ! length ps ! 0, [])"
      using KDynamic_unfold[of 0 ps] by (simp add: reconstruct_capacity_0)
    from KDynamic_profit[OF _ _ nn, of 0] sums_fit_capacity_0[OF pos]
    obtain d ids where d: "KDynamic 0 ps = Some (d, ids)"
      "sint d = best_profit ps (length ps) 0" by auto
    have "sint d = sint (0 :: cint)"
      using d(2) best_profit_capacity_0[OF pos, of "length ps"] by simp
    then have "d = 0" by (simp only: sint_inject)
    with d(1) u show ?thesis by simp
  qed
  have c: "KProxy 0 ps = (0, [])"
  proof -
    have m: "mset (std_sort ratio_greater ps) = mset ps" by (rule mset_std_sort)
    from KProxy_sorted_selects[OF _ m nw]
    obtain sel where sel: "subseq sel ps" "total_weight sel \<le> 0"
      "fst (KProxy 0 ps) = profit_sum sel"
      "mset (snd (KProxy 0 ps)) = mset (map id_p sel)"
      by (auto simp: KProxy_def)
    with none[of sel] have "fst (KProxy 0 ps) = 0" "snd (KProxy 0 ps) = []" by simp_all
    then show ?thesis by (simp add: prod_eq_iff)
  qed
  have d: "solveILP ps 0 = \<lparr>selectedPallets = [], totalProfit = 0, totalWeight = 0\<rparr>"
  proof -
    from branchAndBound_initial[OF _ nw]
    obtain sel where sel: "subseq sel ps" "total_weight sel \<le> 0"
      "branchAndBound ps 0 0 0 0 [] ([], 0, INT_MAX) =
         (map id_p sel, profit_sum sel, if ps = [] then INT_MAX else weight_sum sel)"
      by auto
    with none[of sel] show ?thesis
      by (simp add: solveILP_def Let_def named_pallets_def)
  qed
  from a b c d show ?thesis by (intro conjI)
qed

theorem capacity_0_positive_weights_witness:
  "example_pallets \<noteq> [] \<and>
   list_all (\<lambda>p. 0 < wt p \<and> 0 \<le> pf p) example_pallets \<and>
   KBruteForce 0 example_pallets = (0, []) \<and>
   KDynamic 0 example_pallets = Some (0, []) \<and>
   KProxy 0 example_pallets = (0, []) \<and>
   solveILP example_pallets 0 = \<lparr>selectedPallets = [], totalProfit = 0, totalWeight = 0\<rparr>"
proof -
  have h: "\<forall>p\<in>set example_pallets. 0 < wt p \<and> 0 \<le> pf p"
    by (simp add: example_pallets_def wt_def pf_def)
  have ne: "example_pallets \<noteq> []" by (simp add: example_pallets_def)
  from capacity_0_positive_weights[OF ne h] h ne
  show ?thesis by (simp add: list_all_iff)
qed

text \<open>
  Claim C8 as stated fails at capacity \<^verbatim>\<open>INT_MAX\<close>: the row size \<^verbatim>\<open>capacity + 1\<close>
  overflows, so \<^verbatim>\<open>KDynamic\<close> cannot build its tables and returns nothing.
\<close>

theorem capacity_INT_MAX_empty_counterexample:
  "0 \<le> sint (2147483647 :: cint) \<and> KDynamic 2147483647 [] = None"
proof -
  have a: "0 \<le> sint (2147483647 :: cint)" by simp
  have b: "KDynamic 2147483647 [] = None" by code_simp
  from a b show ?thesis by (intro conjI)
qed

text \<open>
  Claim C8, amended.  For every capacity \<open>C\<close> with \<open>0 \<le> C < INT_MAX\<close>, each of the four
  solvers returns profit 0 and an empty selection on the empty list; \<^verbatim>\<open>solveILP\<close> returns
  total profit 0, total weight 0 and no selected pallets, and \<^verbatim>\<open>branchAndBound\<close> returns
  at once, leaving even the initial best weight \<^verbatim>\<open>INT_MAX\<close> in place.
\<close>

theorem empty_list_all_solvers:
  assumes "0 \<le> sint C" and "sint C < sint INT_MAX"
  shows "KBruteForce C [] = (0, []) \<and>
         KDynamic C [] = Some (0, []) \<and>
         KProxy C [] = (0, []) \<and>
         solveILP [] C = \<lparr>selectedPallets = [], totalProfit = 0, totalWeight = 0\<rparr> \<and>
         branchAndBound [] 0 C 0 0 [] ([], 0, INT_MAX) = ([], 0, INT_MAX)"
proof -
  have a: "KBruteForce C [] = (0, [])"
    unfolding KBruteForce_def by (subst knapsackRecursive.simps) simp
  have "fill_table_nocount [] (nat (sint C)) 0 1 dp = dp" for dp
    by (subst fill_table_nocount.simps) simp
  moreover have "((0::cint) # replicate c 0) ! c = 0" for c
    using nth_replicate[of c "Suc c" "0::cint"] by simp
  ultimately have b: "KDynamic C [] = Some (0, [])"
    using assms KDynamic_unfold[of C "[]"] by (simp add: sint_INT_MAX)
  have c: "KProxy C [] = (0, [])"
    by (simp add: KProxy_def KProxy_sorted_def std_sort_def)
  have d: "solveILP [] C = \<lparr>selectedPallets = [], totalProfit = 0, totalWeight = 0\<rparr>"
    by (simp add: solveILP_def branchAndBound_empty named_pallets_def)
  from a b c d branchAndBound_empty show ?thesis by (intro conjI)
qed

theorem empty_list_all_solvers_witness:
  "0 \<le> sint (50 :: cint) \<and> sint (50 :: cint) < sint INT_MAX \<and>
   KBruteForce 50 [] = (0, []) \<and> KDynamic 50 [] = Some (0, []) \<and>
   KProxy 50 [] = (0, []) \<and>
   solveILP [] 50 = \<lparr>selectedPallets = [], totalProfit = 0, totalWeight = 0\<rparr>"
proof -
  have c: "sint (50 :: cint) < sint INT_MAX" by (simp add: INT_MAX_def)
  from empty_list_all_solvers[OF _ c] c show ?thesis by simp
qed

text \<open>
  Claim C9.  For capacity 10 and the pallets (1, weight 5, profit 10), (2, weight 4,
  profit 40), (3, weight 6, profit 30), all four solvers return profit 70, and the exact
  solvers report the selection 2, 3, of total weight 10.
\<close>

theorem example_all_solvers_70:
  "KBruteForce 10 example_pallets = (70, [2, 3]) \<and>
   KDynamic 10 example_pallets = Some (70, [2, 3]) \<and>
   fst (KProxy 10 example_pallets) = 70 \<and>
   solveILP example_pallets 10 =
     \<lparr>selectedPallets = [2, 3], totalProfit = 70, totalWeight = 10\<rparr> \<and>
   total_weight (named_pallets example_pallets [2, 3]) = 10"
proof -
  have a: "KBruteForce 10 example_pallets = (70, [2, 3])"
    unfolding example_pallets_def by code_simp
  have b: "KDynamic 10 example_pallets = Some (70, [2, 3])"
    unfolding example_pallets_def by code_simp
  have c: "fst (KProxy 10 example_pallets) = 70"
    unfolding example_pallets_def by code_simp
  have d: "solveILP example_pallets 10 =
     \<lparr>selectedPallets = [2, 3], totalProfit = 70, totalWeight = 10\<rparr>"
    unfolding example_pallets_def by code_simp
  have e: "total_weight (named_pallets example_pallets [2, 3]) = 10"
    by (simp add: example_pallets_def named_pallets_def wt_def)
  from a b c d e show ?thesis by (intro conjI)
qed

text \<open>
  Claim C10.  The count table has no effect on the output: for every capacity and every
  list of pallets, \<^verbatim>\<open>KDynamic\<close> returns the same profit and the same selection as the
  algorithm without the count table.
\<close>

theorem KDynamic_count_table_unused:
  "KDynamic C ps = KDynamic_nocount C ps"
  by (simp add: KDynamic_def KDynamic_nocount_def fill_table_fst Let_def)

end
